theory Spec2Isabelle
  imports Complex_Main "HOL-Library.Word"
begin

section \<open>Data model\<close>

text \<open>
  A pixel is the RGB triple of 8-bit channels that \<open>cv2.cvtColor(..., COLOR_BGR2RGB)\<close>
  yields; a grid is the array \<open>rgb\<close> of shape \<open>(height * 2, width, 3)\<close>, kept as the list
  of its rows, so that \<open>rgb[r, c]\<close> is element \<open>c\<close> of row \<open>r\<close>.
\<close>

type_synonym pixel = "8 word \<times> 8 word \<times> 8 word"

type_synonym grid = "pixel list list"

datatype py_error = IndexError

text \<open>\<open>is_grid n m g\<close>: the array \<open>g\<close> has shape \<open>(n, m, 3)\<close>.\<close>

definition is_grid :: "nat \<Rightarrow> nat \<Rightarrow> grid \<Rightarrow> bool" where
  "is_grid n m g = (length g = n \<and> list_all (\<lambda>r. length r = m) g)"

text \<open>\<open>a[r, c]\<close> of numpy for non-negative indices: outside the shape it raises.\<close>

definition px :: "grid \<Rightarrow> nat \<Rightarrow> nat \<Rightarrow> py_error + pixel" where
  "px g r c = (if r < length g \<and> c < length (g ! r) then Inr (g ! r ! c) else Inl IndexError)"

text \<open>The slice \<open>a[y2:y2+2, :]\<close>: at most two rows, never an error.\<close>

definition band :: "grid \<Rightarrow> nat \<Rightarrow> grid" where
  "band g y2 = take 2 (drop y2 g)"

section \<open>Escape tokens and their text\<close>

text \<open>
  Each string appended to \<open>ansi_parts\<close> is one of five tokens. \<open>render\<close> gives the text
  of a token as the bytes that reach the file (UTF-8): the f-strings of the source, with
  numbers in plain decimal, and the lower half block U+2584 as its three bytes.
\<close>

datatype token = Move nat nat | SetBg pixel | SetFg pixel | Draw | Reset

definition digit :: "nat \<Rightarrow> char" where
  "digit d = char_of (48 + d)"

fun show_nat :: "nat \<Rightarrow> string" where
  "show_nat n = (if n < 10 then [digit n] else show_nat (n div 10) @ [digit (n mod 10)])"

declare show_nat.simps [simp del]

definition ESC :: string where
  "ESC = [char_of (27 :: nat)]"

definition RESET :: string where
  "RESET = ESC @ ''[0m''"

definition glyph :: string where
  "glyph = [char_of (226 :: nat), char_of (150 :: nat), char_of (132 :: nat)]"

definition rgb_text :: "pixel \<Rightarrow> string" where
  "rgb_text p = (case p of (r, g, b) \<Rightarrow>
     show_nat (unat r) @ '';'' @ show_nat (unat g) @ '';'' @ show_nat (unat b))"

fun render :: "token \<Rightarrow> string" where
  "render (Move y x) = ESC @ ''['' @ show_nat y @ '';'' @ show_nat x @ ''H''"
| "render (SetBg p) = ESC @ ''[48;2;'' @ rgb_text p @ ''m''"
| "render (SetFg p) = ESC @ ''[38;2;'' @ rgb_text p @ ''m''"
| "render Draw = glyph"
| "render Reset = RESET"

definition join :: "token list \<Rightarrow> string" where
  "join parts = concat (map render parts)"

section \<open>The delta encoder\<close>

text \<open>
  The variables of the diff generation: the active colours (\<open>None\<close> is Python's
  \<open>None\<close>), the tracked cursor (1-based) and the parts emitted so far.
\<close>

record tracker =
  cur_fg :: "pixel option"
  cur_bg :: "pixel option"
  cursor_y :: nat
  cursor_x :: nat
  ansi_parts :: "token list"

text \<open>A \<open>for\<close> loop over a range whose body may raise: the first error ends the loop.\<close>

fun for_each :: "nat list \<Rightarrow> (nat \<Rightarrow> 's \<Rightarrow> py_error + 's) \<Rightarrow> 's \<Rightarrow> py_error + 's" where
  "for_each [] f s = Inr s"
| "for_each (i # is) f s = (case f i s of Inl e \<Rightarrow> Inl e | Inr s' \<Rightarrow> for_each is f s')"

text \<open>
  The test \<open>changed\<close> of one cell: with a previous frame, both of its pixels are read
  before they are compared.
\<close>

definition cell_changed ::
  "grid option \<Rightarrow> nat \<Rightarrow> nat \<Rightarrow> pixel \<Rightarrow> pixel \<Rightarrow> py_error + bool" where
  "cell_changed prev_rgb y2 x top_pixel bottom_pixel =
     (case prev_rgb of
        None \<Rightarrow> Inr True
      | Some p \<Rightarrow>
          (case px p y2 x of
             Inl e \<Rightarrow> Inl e
           | Inr prev_top \<Rightarrow>
               (case px p (y2 + 1) x of
                  Inl e \<Rightarrow> Inl e
                | Inr prev_bottom \<Rightarrow>
                    Inr (\<not> (top_pixel = prev_top \<and> bottom_pixel = prev_bottom)))))"

text \<open>Drawing a changed cell: move if the cursor is elsewhere, set the colours that
  differ from the active ones, draw, advance the cursor.\<close>

definition draw_cell :: "nat \<Rightarrow> nat \<Rightarrow> pixel \<Rightarrow> pixel \<Rightarrow> tracker \<Rightarrow> tracker" where
  "draw_cell y x top_pixel bottom_pixel t =
     (let target_y = y + 1; target_x = x + 1;
          t1 = (if cursor_y t = target_y \<and> cursor_x t = target_x then t
                else t\<lparr>ansi_parts := ansi_parts t @ [Move target_y target_x],
                       cursor_y := target_y, cursor_x := target_x\<rparr>);
          new_bg = top_pixel; new_fg = bottom_pixel;
          t2 = (if cur_bg t1 \<noteq> Some new_bg
                then t1\<lparr>ansi_parts := ansi_parts t1 @ [SetBg new_bg], cur_bg := Some new_bg\<rparr>
                else t1);
          t3 = (if cur_fg t2 \<noteq> Some new_fg
                then t2\<lparr>ansi_parts := ansi_parts t2 @ [SetFg new_fg], cur_fg := Some new_fg\<rparr>
                else t2)
      in t3\<lparr>ansi_parts := ansi_parts t3 @ [Draw], cursor_x := cursor_x t3 + 1\<rparr>)"

text \<open>The body of the loop over the columns.\<close>

definition cell_step :: "grid \<Rightarrow> grid option \<Rightarrow> nat \<Rightarrow> nat \<Rightarrow> tracker \<Rightarrow> py_error + tracker" where
  "cell_step rgb prev_rgb y x t =
     (let y2 = y * 2 in
      case px rgb y2 x of
        Inl e \<Rightarrow> Inl e
      | Inr top_pixel \<Rightarrow>
          (case px rgb (y2 + 1) x of
             Inl e \<Rightarrow> Inl e
           | Inr bottom_pixel \<Rightarrow>
               (case cell_changed prev_rgb y2 x top_pixel bottom_pixel of
                  Inl e \<Rightarrow> Inl e
                | Inr changed \<Rightarrow>
                    if \<not> changed then Inr t
                    else Inr (draw_cell y x top_pixel bottom_pixel t))))"

text \<open>\<open>np.array_equal(row_current, row_prev)\<close> on the two bands.\<close>

definition row_unchanged :: "grid \<Rightarrow> grid option \<Rightarrow> nat \<Rightarrow> bool" where
  "row_unchanged rgb prev_rgb y =
     (case prev_rgb of None \<Rightarrow> False | Some p \<Rightarrow> band rgb (y * 2) = band p (y * 2))"

text \<open>The body of the loop over the rows.\<close>

definition row_step :: "nat \<Rightarrow> grid \<Rightarrow> grid option \<Rightarrow> nat \<Rightarrow> tracker \<Rightarrow> py_error + tracker" where
  "row_step width rgb prev_rgb y t =
     (if row_unchanged rgb prev_rgb y then Inr t
      else for_each [0..<width] (cell_step rgb prev_rgb y) t)"

text \<open>
  The five variables are locals of the whole function, so a frame finds in them what the
  frame before left there. The diff generation starts by assigning all five.
\<close>

definition reset_vars :: "tracker \<Rightarrow> tracker" where
  "reset_vars t = t\<lparr>ansi_parts := [], cur_fg := None, cur_bg := None, cursor_y := 1, cursor_x := 1\<rparr>"

text \<open>After the loops, \<open>RESET\<close> is appended if anything was emitted.\<close>

definition finish :: "token list \<Rightarrow> token list" where
  "finish parts = (if parts \<noteq> [] then parts @ [Reset] else parts)"

text \<open>
  The diff generation of one frame (step 2 of the processing loop), on the variables
  \<open>t\<close> as the previous frame left them.
\<close>

definition generate_diff ::
  "nat \<Rightarrow> nat \<Rightarrow> grid \<Rightarrow> grid option \<Rightarrow> tracker \<Rightarrow> py_error + tracker" where
  "generate_diff width height rgb prev_rgb t =
     (case for_each [0..<height] (row_step width rgb prev_rgb) (reset_vars t) of
        Inl e \<Rightarrow> Inl e
      | Inr t' \<Rightarrow> Inr (t'\<lparr>ansi_parts := finish (ansi_parts t')\<rparr>))"

text \<open>The variables before the first frame: not yet bound, and never read before
  \<open>reset_vars\<close> assigns them.\<close>

definition unbound :: tracker where
  "unbound = \<lparr>cur_fg = None, cur_bg = None, cursor_y = 0, cursor_x = 0, ansi_parts = []\<rparr>"

text \<open>
  The operation stream that turns \<open>prev_rgb\<close> into \<open>rgb\<close>: the parts of one diff
  generation.
\<close>

definition encode :: "nat \<Rightarrow> nat \<Rightarrow> grid \<Rightarrow> grid option \<Rightarrow> py_error + token list" where
  "encode width height rgb prev_rgb =
     (case generate_diff width height rgb prev_rgb unbound of
        Inl e \<Rightarrow> Inl e
      | Inr t \<Rightarrow> Inr (ansi_parts t))"

section \<open>Retiming\<close>

text \<open>
  \<open>multiplier\<close> and the products \<open>input_idx * multiplier\<close> are floats. A float
  operation returns the exact result rounded to the format; the rounding is the
  parameter \<open>rnd\<close>, on the rationals (every finite float is one). \<open>int\<close> of a float
  truncates towards zero.
\<close>

definition py_int :: "rat \<Rightarrow> int" where
  "py_int q = (if q < 0 then \<lceil>q\<rceil> else \<lfloor>q\<rfloor>)"

definition multiplier :: "(rat \<Rightarrow> rat) \<Rightarrow> int \<Rightarrow> rat \<Rightarrow> rat" where
  "multiplier rnd target_fps orig_fps =
     (let target_fps = (if target_fps \<le> 0 then 60 else target_fps)
      in if orig_fps \<noteq> 0 then rnd (of_int target_fps / orig_fps) else 1)"

text \<open>\<open>int(i * multiplier)\<close>, the output index at which input frame \<open>i\<close> starts.\<close>

definition out_index :: "(rat \<Rightarrow> rat) \<Rightarrow> rat \<Rightarrow> nat \<Rightarrow> int" where
  "out_index rnd mult i = py_int (rnd (of_nat i * mult))"

definition frames_to_generate :: "(rat \<Rightarrow> rat) \<Rightarrow> rat \<Rightarrow> nat \<Rightarrow> int" where
  "frames_to_generate rnd mult input_idx =
     (let current_out_frame_idx = out_index rnd mult input_idx;
          next_out_frame_idx = out_index rnd mult (input_idx + 1)
      in next_out_frame_idx - current_out_frame_idx)"

definition est_out_frames :: "(rat \<Rightarrow> rat) \<Rightarrow> rat \<Rightarrow> nat \<Rightarrow> int" where
  "est_out_frames rnd mult total_frames = py_int (rnd (of_nat total_frames * mult))"

section \<open>The processing loop of the ANSI extractor\<close>

text \<open>
  The state of the loop. A written file \<open>frame_NNNNN.txt\<close> is kept as the pair of its
  number and its content, in the order of writing.
\<close>

record run_state =
  frame_idx :: nat
  input_idx :: nat
  prev_rgb :: "grid option"
  vars :: tracker
  files :: "(nat \<times> string) list"

definition save_frame :: "string \<Rightarrow> run_state \<Rightarrow> run_state" where
  "save_frame frame_data s =
     s\<lparr>files := files s @ [(frame_idx s, frame_data)], frame_idx := frame_idx s + 1\<rparr>"

text \<open>\<open>for _ in range(frames_to_generate - 1)\<close>: an empty file per repeat.\<close>

fun write_repeats :: "nat \<Rightarrow> run_state \<Rightarrow> run_state" where
  "write_repeats 0 s = s"
| "write_repeats (Suc n) s = write_repeats n (save_frame [] s)"

text \<open>
  One iteration for an input frame that was read; \<open>rgb\<close> is what resizing and colour
  conversion make of it.
\<close>

definition process_frame ::
  "(rat \<Rightarrow> rat) \<Rightarrow> nat \<Rightarrow> nat \<Rightarrow> rat \<Rightarrow> grid \<Rightarrow> run_state \<Rightarrow> py_error + run_state" where
  "process_frame rnd width height mult rgb s =
     (let n = frames_to_generate rnd mult (input_idx s) in
      if n > 0 then
        (case generate_diff width height rgb (prev_rgb s) (vars s) of
           Inl e \<Rightarrow> Inl e
         | Inr t \<Rightarrow>
             (let frame_data = join (ansi_parts t);
                  s1 = save_frame frame_data (s\<lparr>vars := t\<rparr>);
                  s2 = s1\<lparr>prev_rgb := Some rgb\<rparr>;
                  s3 = write_repeats (nat (n - 1)) s2
              in Inr (s3\<lparr>input_idx := input_idx s3 + 1\<rparr>)))
      else Inr (s\<lparr>input_idx := input_idx s + 1\<rparr>))"

fun process_frames ::
  "(rat \<Rightarrow> rat) \<Rightarrow> nat \<Rightarrow> nat \<Rightarrow> rat \<Rightarrow> grid list \<Rightarrow> run_state \<Rightarrow> py_error + run_state" where
  "process_frames rnd width height mult [] s = Inr s"
| "process_frames rnd width height mult (rgb # rest) s =
     (case process_frame rnd width height mult rgb s of
        Inl e \<Rightarrow> Inl e
      | Inr s' \<Rightarrow> process_frames rnd width height mult rest s')"

definition start_state :: run_state where
  "start_state = \<lparr>frame_idx = 0, input_idx = 0, prev_rgb = None, vars = unbound, files = []\<rparr>"

definition extract_ansi_frames_optimized ::
  "(rat \<Rightarrow> rat) \<Rightarrow> nat \<Rightarrow> nat \<Rightarrow> int \<Rightarrow> rat \<Rightarrow> grid list \<Rightarrow> py_error + run_state" where
  "extract_ansi_frames_optimized rnd width height target_fps orig_fps frames =
     process_frames rnd width height (multiplier rnd target_fps orig_fps) frames start_state"

section \<open>The raw RGB extractor\<close>

text \<open>
  \<open>gen_tasks\<close> yields, for every input frame, \<open>count\<close> tasks that carry the frame and
  consecutive output numbers; \<open>range(count)\<close> is empty for a count below one, which is
  what \<open>nat\<close> makes of it. The variable \<open>in_idx\<close> is \<open>input_idx\<close> of the source.
\<close>

fun gen_tasks_from ::
  "(rat \<Rightarrow> rat) \<Rightarrow> rat \<Rightarrow> 'f list \<Rightarrow> nat \<Rightarrow> nat \<Rightarrow> (nat \<times> 'f) list" where
  "gen_tasks_from rnd mult [] idx in_idx = []"
| "gen_tasks_from rnd mult (frame # rest) idx in_idx =
     (let current_out = out_index rnd mult in_idx;
          next_out = out_index rnd mult (in_idx + 1);
          count = next_out - current_out
      in map (\<lambda>k. (idx + k, frame)) [0..<nat count]
         @ gen_tasks_from rnd mult rest (idx + nat count) (in_idx + 1))"

definition gen_tasks :: "(rat \<Rightarrow> rat) \<Rightarrow> rat \<Rightarrow> 'f list \<Rightarrow> (nat \<times> 'f) list" where
  "gen_tasks rnd mult frames = gen_tasks_from rnd mult frames 0 0"

text \<open>\<open>rgb.tobytes()\<close>: the array in C order, row by row, pixel by pixel, R then G then B.\<close>

definition pixel_bytes :: "pixel \<Rightarrow> 8 word list" where
  "pixel_bytes p = (case p of (r, g, b) \<Rightarrow> [r, g, b])"

definition tobytes :: "grid \<Rightarrow> 8 word list" where
  "tobytes g = concat (map (\<lambda>row. concat (map pixel_bytes row)) g)"

text \<open>\<open>struct.pack('<HH', w, h)\<close>: two unsigned 16-bit fields, low byte first; a value
  outside \<open>0..65535\<close> raises \<open>struct.error\<close>.\<close>

definition pack_H :: "int \<Rightarrow> 8 word list option" where
  "pack_H v = (if 0 \<le> v \<and> v \<le> 65535 then Some [word_of_int (v mod 256), word_of_int (v div 256)]
               else None)"

definition pack_HH :: "int \<Rightarrow> int \<Rightarrow> 8 word list option" where
  "pack_HH w h = (case pack_H w of None \<Rightarrow> None
                  | Some a \<Rightarrow> (case pack_H h of None \<Rightarrow> None | Some b \<Rightarrow> Some (a @ b)))"

text \<open>
  The end of \<open>_process_task\<close>, from the enhanced frame converted to RGB on: the content
  written to \<open>frame_NNNNN.bin\<close>, or \<open>None\<close> when the exception handler caught an error
  and nothing was written.
\<close>

definition process_task_payload :: "int \<Rightarrow> int \<Rightarrow> grid \<Rightarrow> 8 word list option" where
  "process_task_payload w h rgb =
     (let data = tobytes rgb in
      case pack_HH w h of None \<Rightarrow> None | Some header \<Rightarrow> Some (header @ data))"

section \<open>The rounding of Python's floats\<close>

text \<open>
  A Python float is an IEEE 754 binary64 number: 53 significant bits, exponents from
  \<open>-1022\<close> on. \<open>round_double\<close> is its rounding of an exact result, to the nearest
  representable number and on a tie to the one with an even last bit: \<open>binade x\<close> is
  the exponent \<open>e\<close> with \<open>2 ^ e \<le> x < 2 ^ (e + 1)\<close> for a positive \<open>x\<close> (found from
  \<open>ilog2\<close>, the integer logarithm, of numerator and denominator), the spacing of the
  representable numbers there is \<open>2 ^ (e - 52)\<close>, and below \<open>2 ^ -1022\<close> it stays
  \<open>2 ^ -1074\<close>.
  Results beyond the largest float (about \<open>1.8 * 10 ^ 308\<close>) become infinite; they
  are outside this function, which is used far below that size only.
\<close>

function ilog2 :: "int \<Rightarrow> int" where
  "ilog2 k = (if k \<le> 1 then 0 else 1 + ilog2 (k div 2))"
  by pat_completeness auto
termination
  by (relation "measure nat") auto

declare ilog2.simps [simp del]

definition pow2 :: "int \<Rightarrow> rat" where
  "pow2 e = (if 0 \<le> e then 2 ^ nat e else 1 / 2 ^ nat (- e))"

definition binade :: "rat \<Rightarrow> int" where
  "binade x =
     (case quotient_of x of (a, b) \<Rightarrow>
        (let e0 = ilog2 a - ilog2 b
         in if pow2 e0 \<le> x then e0 else e0 - 1))"

definition round_half_even :: "rat \<Rightarrow> int" where
  "round_half_even x =
     (let f = \<lfloor>x\<rfloor>; d = x - of_int f
      in if d < 1 / 2 then f else if 1 / 2 < d then f + 1 else if f mod 2 = 0 then f else f + 1)"

definition round_double :: "rat \<Rightarrow> rat" where
  "round_double x =
     (if x = 0 then 0
      else (let e = max (binade \<bar>x\<bar>) (- 1022); ulp = pow2 (e - 52)
            in sgn x * of_int (round_half_even (\<bar>x\<bar> / ulp)) * ulp))"

section \<open>Notions used in the statements\<close>

text \<open>
  \<open>covers width height prev\<close>: every pixel the encoder reads from the previous frame
  \<open>prev\<close> for a grid of \<open>height\<close> rows of \<open>width\<close> cells is inside it.
\<close>

definition covers :: "nat \<Rightarrow> nat \<Rightarrow> grid option \<Rightarrow> bool" where
  "covers width height prev =
     (case prev of
        None \<Rightarrow> True
      | Some p \<Rightarrow> height * 2 \<le> length p \<and> list_all (\<lambda>r. width \<le> length r) p)"

text \<open>
  \<open>changed_at rgb prev y x\<close>: the cell of row \<open>y\<close> and column \<open>x\<close> differs from the
  previous frame in its top or its bottom pixel; with no previous frame every cell does.
\<close>

definition changed_at :: "grid \<Rightarrow> grid option \<Rightarrow> nat \<Rightarrow> nat \<Rightarrow> bool" where
  "changed_at rgb prev y x =
     (case prev of
        None \<Rightarrow> True
      | Some p \<Rightarrow> \<not> (rgb ! (y * 2) ! x = p ! (y * 2) ! x
                    \<and> rgb ! (y * 2 + 1) ! x = p ! (y * 2 + 1) ! x))"

text \<open>The move tokens of a stream that target the terminal row \<open>r\<close>.\<close>

fun is_move_to_row :: "nat \<Rightarrow> token \<Rightarrow> bool" where
  "is_move_to_row r (Move y x) = (y = r)"
| "is_move_to_row r _ = False"

definition moves_to_row :: "nat \<Rightarrow> token list \<Rightarrow> token list" where
  "moves_to_row r parts = filter (is_move_to_row r) parts"

text \<open>What holds of the loop state between two input frames.\<close>

definition run_inv :: "(rat \<Rightarrow> rat) \<Rightarrow> nat \<Rightarrow> nat \<Rightarrow> rat \<Rightarrow> run_state \<Rightarrow> bool" where
  "run_inv rnd width height mult s =
     (covers width height (prev_rgb s) \<and> length (files s) = frame_idx s
      \<and> int (frame_idx s) = out_index rnd mult (input_idx s))"

section \<open>Basic facts about the loops\<close>

lemma for_each_skip:
  "(\<And>i t. i \<in> set js \<Longrightarrow> f i t = Inr t) \<Longrightarrow> for_each js f s = Inr s"
  by (induction js) simp_all

lemma reset_vars_const: "reset_vars t = reset_vars t'"
  by (simp add: reset_vars_def)

section \<open>Encoding a grid against itself\<close>

text \<open>
  C1. For every grid \<open>G\<close>, encoding \<open>G\<close> against a baseline equal to \<open>G\<close> gives the
  empty operation stream: no token at all is emitted, and the text written to the file is
  the empty string.
\<close>

theorem encode_same_grid_empty:
  "encode width height G (Some G) = Inr []
   \<and> map_sum id join (encode width height G (Some G)) = Inr []"
proof -
  have "for_each [0..<height] (row_step width G (Some G)) (reset_vars unbound)
        = Inr (reset_vars unbound)"
    by (rule for_each_skip) (simp add: row_step_def row_unchanged_def)
  then have "encode width height G (Some G) = Inr []"
    by (simp add: encode_def generate_diff_def finish_def reset_vars_def)
  then show ?thesis
    by (simp add: join_def)
qed

section \<open>The two scenarios\<close>

text \<open>
  C3, as stated: the first tick of the one-cell grid with top (255,0,0) and bottom
  (0,255,0) would start with a move to (1,1). It does not: the stream that the code
  produces is another one.
\<close>

theorem scenario_A_no_move_counterexample:
  "encode 1 1 [[(255, 0, 0)], [(0, 255, 0)]] None
   \<noteq> Inr [Move 1 1, SetBg (255, 0, 0), SetFg (0, 255, 0), Draw, Reset]"
  by code_simp

text \<open>
  C3, amended. On the first tick (no previous frame) the one-cell grid with top
  (255,0,0) and bottom (0,255,0) is encoded as set-background(255,0,0),
  set-foreground(0,255,0), one glyph and the reset, in that order and with no move
  token, since the tracked cursor starts at (1,1), the cell's own position; the text is
  given byte by byte. A second tick with the identical grid gives the empty stream.
\<close>

theorem scenario_A:
  "encode 1 1 [[(255, 0, 0)], [(0, 255, 0)]] None
     = Inr [SetBg (255, 0, 0), SetFg (0, 255, 0), Draw, Reset]
   \<and> map_sum id join (encode 1 1 [[(255, 0, 0)], [(0, 255, 0)]] None)
     = Inr (ESC @ ''[48;2;255;0;0m'' @ ESC @ ''[38;2;0;255;0m'' @ glyph @ ESC @ ''[0m'')
   \<and> encode 1 1 [[(255, 0, 0)], [(0, 255, 0)]] (Some [[(255, 0, 0)], [(0, 255, 0)]]) = Inr []"
  by code_simp

text \<open>
  C4, as stated: the second tick of the two-cell row, in which only the bottom pixel of
  the right cell changed to (0,0,255), would be move(1,2), set-foreground(0,0,255), glyph,
  reset, with no background token. The code's stream is another one.
\<close>

theorem scenario_B_background_counterexample:
  "encode 2 1 [[(255, 0, 0), (255, 0, 0)], [(0, 255, 0), (0, 0, 255)]]
      (Some [[(255, 0, 0), (255, 0, 0)], [(0, 255, 0), (0, 255, 0)]])
   \<noteq> Inr [Move 1 2, SetFg (0, 0, 255), Draw, Reset]"
  by code_simp

text \<open>
  C4, amended. The second tick is encoded as move(1,2), set-background(255,0,0),
  set-foreground(0,0,255), one glyph and the reset: the active colours are unset at the
  start of every diff generation, so the background of the first drawn cell is always
  set, although it is the colour the first tick ended with. No move to column 1 is
  emitted.
\<close>

theorem scenario_B:
  "encode 2 1 [[(255, 0, 0), (255, 0, 0)], [(0, 255, 0), (0, 0, 255)]]
      (Some [[(255, 0, 0), (255, 0, 0)], [(0, 255, 0), (0, 255, 0)]])
     = Inr [Move 1 2, SetBg (255, 0, 0), SetFg (0, 0, 255), Draw, Reset]
   \<and> map_sum id join
        (encode 2 1 [[(255, 0, 0), (255, 0, 0)], [(0, 255, 0), (0, 0, 255)]]
           (Some [[(255, 0, 0), (255, 0, 0)], [(0, 255, 0), (0, 255, 0)]]))
     = Inr (ESC @ ''[1;2H'' @ ESC @ ''[48;2;255;0;0m'' @ ESC @ ''[38;2;0;0;255m'' @ glyph
            @ ESC @ ''[0m'')"
  by code_simp

section \<open>No state from one diff generation to the next\<close>

text \<open>
  C7. Every diff generation starts with the tracked cursor at (1,1), both active
  colours unset and no parts, whatever the variables held when the previous frame was
  done; so its result does not depend on those leftovers, and its stream is the stream
  \<open>encode\<close> of the current grid and the baseline alone.
\<close>

theorem generate_diff_state_independent:
  "cursor_y (reset_vars t) = 1 \<and> cursor_x (reset_vars t) = 1
   \<and> cur_bg (reset_vars t) = None \<and> cur_fg (reset_vars t) = None
   \<and> ansi_parts (reset_vars t) = []
   \<and> generate_diff width height rgb prev t = generate_diff width height rgb prev t'
   \<and> map_sum id ansi_parts (generate_diff width height rgb prev t)
       = encode width height rgb prev"
proof -
  have eq: "generate_diff width height rgb prev u = generate_diff width height rgb prev v"
    for u v
    unfolding generate_diff_def using reset_vars_const [of u v] by simp
  have "map_sum id ansi_parts (generate_diff width height rgb prev t)
        = encode width height rgb prev"
    unfolding encode_def eq [of t unbound] by (simp split: sum.splits)
  with eq [of t t'] show ?thesis
    by (simp add: reset_vars_def)
qed

section \<open>The encoder on grids of the run's dimensions\<close>

lemma px_in: "r < length g \<Longrightarrow> list_all (\<lambda>row. m \<le> length row) g \<Longrightarrow> c < m \<Longrightarrow> px g r c = Inr (g ! r ! c)"
  by (auto simp: px_def list_all_length)

lemma is_grid_covers: "is_grid (height * 2) width g \<Longrightarrow> covers width height (Some g)"
  by (auto simp: is_grid_def covers_def list_all_length)

lemma for_each_ok:
  "(\<And>i s. i \<in> set js \<Longrightarrow> \<exists>s'. f i s = Inr s') \<Longrightarrow> \<exists>s'. for_each js f s = Inr s'"
proof (induction js arbitrary: s)
  case Nil
  then show ?case by simp
next
  case (Cons j js)
  obtain s1 where "f j s = Inr s1" using Cons.prems [of j s] by auto
  moreover obtain s2 where "for_each js f s1 = Inr s2"
    using Cons.IH [of s1] Cons.prems by auto
  ultimately show ?case by simp
qed

lemma cell_changed_ok:
  assumes "covers width height prev" "y < height" "x < width"
  shows "\<exists>b. cell_changed prev (y * 2) x tp bt = Inr b"
proof (cases prev)
  case None
  then show ?thesis by (auto simp: cell_changed_def)
next
  case (Some p)
  with assms have len: "height * 2 \<le> length p" and rows: "list_all (\<lambda>r. width \<le> length r) p"
    by (simp_all add: covers_def)
  have "px p (y * 2) x = Inr (p ! (y * 2) ! x)"
    using len assms(2,3) by (intro px_in [OF _ rows]) auto
  moreover have "px p (y * 2 + 1) x = Inr (p ! (y * 2 + 1) ! x)"
    using len assms(2,3) by (intro px_in [OF _ rows]) auto
  ultimately show ?thesis using Some by (simp add: cell_changed_def)
qed

lemma cell_step_ok:
  assumes "is_grid (height * 2) width rgb" "covers width height prev" "y < height" "x < width"
  shows "\<exists>t'. cell_step rgb prev y x t = Inr t'"
proof -
  from assms(1) have len: "length rgb = height * 2" and rows: "list_all (\<lambda>r. width \<le> length r) rgb"
    by (auto simp: is_grid_def list_all_length)
  have a: "px rgb (y * 2) x = Inr (rgb ! (y * 2) ! x)"
    using len assms(3,4) by (intro px_in [OF _ rows]) auto
  have b: "px rgb (y * 2 + 1) x = Inr (rgb ! (y * 2 + 1) ! x)"
    using len assms(3,4) by (intro px_in [OF _ rows]) auto
  obtain c where "cell_changed prev (y * 2) x (rgb ! (y * 2) ! x) (rgb ! (y * 2 + 1) ! x) = Inr c"
    using cell_changed_ok [OF assms(2,3,4)] by blast
  with a b show ?thesis by (simp add: cell_step_def Let_def)
qed

lemma row_step_ok:
  assumes "is_grid (height * 2) width rgb" "covers width height prev" "y < height"
  shows "\<exists>t'. row_step width rgb prev y t = Inr t'"
proof (cases "row_unchanged rgb prev y")
  case True
  then show ?thesis by (simp add: row_step_def)
next
  case False
  have "\<exists>t'. for_each [0..<width] (cell_step rgb prev y) t = Inr t'"
    by (rule for_each_ok) (use assms in \<open>auto intro: cell_step_ok\<close>)
  with False show ?thesis by (simp add: row_step_def)
qed

lemma generate_diff_ok:
  assumes "is_grid (height * 2) width rgb" "covers width height prev"
  shows "\<exists>t'. generate_diff width height rgb prev t = Inr t'"
proof -
  have "\<exists>t'. for_each [0..<height] (row_step width rgb prev) (reset_vars t) = Inr t'"
    by (rule for_each_ok) (use assms in \<open>auto intro: row_step_ok\<close>)
  then show ?thesis by (auto simp: generate_diff_def)
qed

section \<open>Retiming\<close>

lemma py_int_mono: "q \<le> r \<Longrightarrow> py_int q \<le> py_int r"
proof -
  have "\<lceil>q\<rceil> \<le> \<lfloor>r\<rfloor>" if "q < 0" "0 \<le> r"
  proof -
    have "\<lceil>q\<rceil> \<le> 0" using that(1) by (simp add: ceiling_le_iff)
    moreover have "0 \<le> \<lfloor>r\<rfloor>" using that(2) by simp
    ultimately show ?thesis by linarith
  qed
  then show "q \<le> r \<Longrightarrow> py_int q \<le> py_int r"
    unfolding py_int_def by (auto intro: floor_mono ceiling_mono)
qed

lemma out_index_step:
  assumes "mono rnd" "0 \<le> mult"
  shows "out_index rnd mult i \<le> out_index rnd mult (i + 1)"
proof -
  have "of_nat i * mult \<le> of_nat (i + 1) * mult"
    using assms(2) by (simp add: mult_right_mono)
  then have "rnd (of_nat i * mult) \<le> rnd (of_nat (i + 1) * mult)"
    using assms(1) by (simp add: monoD)
  then show ?thesis
    unfolding out_index_def by (rule py_int_mono)
qed

lemma out_index_0: "rnd 0 = 0 \<Longrightarrow> out_index rnd mult 0 = 0"
  by (simp add: out_index_def py_int_def)

lemma write_repeats_fields:
  "frame_idx (write_repeats n s) = frame_idx s + n"
  "length (files (write_repeats n s)) = length (files s) + n"
  "prev_rgb (write_repeats n s) = prev_rgb s"
  "input_idx (write_repeats n s) = input_idx s"
  by (induction n arbitrary: s) (simp_all add: save_frame_def)

lemma process_frame_inv:
  assumes "mono rnd" "0 \<le> mult" "is_grid (height * 2) width rgb" "run_inv rnd width height mult s"
  shows "\<exists>s'. process_frame rnd width height mult rgb s = Inr s'
      \<and> run_inv rnd width height mult s' \<and> input_idx s' = input_idx s + 1"
proof -
  let ?n = "frames_to_generate rnd mult (input_idx s)"
  have n: "out_index rnd mult (input_idx s + 1) = out_index rnd mult (input_idx s) + ?n"
    by (simp add: frames_to_generate_def Let_def)
  have n0: "0 \<le> ?n"
    using out_index_step [OF assms(1,2), of "input_idx s"] by (simp add: frames_to_generate_def Let_def)
  from assms(4) have cov: "covers width height (prev_rgb s)"
    and len: "length (files s) = frame_idx s"
    and idx: "int (frame_idx s) = out_index rnd mult (input_idx s)"
    by (simp_all add: run_inv_def)
  show ?thesis
  proof (cases "0 < ?n")
    case True
    obtain t where t: "generate_diff width height rgb (prev_rgb s) (vars s) = Inr t"
      using generate_diff_ok [OF assms(3) cov] by blast
    show ?thesis
      using True t n len idx is_grid_covers [OF assms(3)]
      by (simp add: process_frame_def Let_def run_inv_def write_repeats_fields save_frame_def)
  next
    case False
    with n0 have "?n = 0" by simp
    with n cov len idx show ?thesis
      by (simp add: process_frame_def Let_def run_inv_def)
  qed
qed

lemma process_frames_inv:
  assumes "mono rnd" "0 \<le> mult"
  shows "list_all (is_grid (height * 2) width) frames \<Longrightarrow> run_inv rnd width height mult s \<Longrightarrow>
     \<exists>s'. process_frames rnd width height mult frames s = Inr s'
      \<and> run_inv rnd width height mult s' \<and> input_idx s' = input_idx s + length frames"
proof (induction frames arbitrary: s)
  case Nil
  then show ?case by simp
next
  case (Cons rgb rest)
  from Cons.prems obtain s1 where s1: "process_frame rnd width height mult rgb s = Inr s1"
    "run_inv rnd width height mult s1" "input_idx s1 = input_idx s + 1"
    using process_frame_inv [OF assms, of height width rgb s] by auto
  from Cons.IH [OF _ s1(2)] Cons.prems(1) obtain s2 where
    "process_frames rnd width height mult rest s1 = Inr s2"
    "run_inv rnd width height mult s2" "input_idx s2 = input_idx s1 + length rest"
    by auto
  with s1 show ?case by simp
qed

lemma gen_tasks_from_length:
  assumes "mono rnd" "0 \<le> mult"
  shows "int (length (gen_tasks_from rnd mult frames idx i))
     = out_index rnd mult (i + length frames) - out_index rnd mult i"
proof (induction frames arbitrary: idx i)
  case Nil
  then show ?case by simp
next
  case (Cons f rest)
  have "out_index rnd mult i \<le> out_index rnd mult (i + 1)"
    by (rule out_index_step [OF assms])
  with Cons.IH [of _ "i + 1"] show ?case
    by (simp add: Let_def)
qed


lemma start_state_inv: "rnd 0 = 0 \<Longrightarrow> run_inv rnd width height mult start_state"
  by (simp add: run_inv_def start_state_def covers_def out_index_0)

lemma run_prefix:
  assumes "mono rnd" "rnd 0 = 0" "0 \<le> mult" "list_all (is_grid (height * 2) width) frames"
  shows "\<exists>s. process_frames rnd width height mult frames start_state = Inr s
      \<and> input_idx s = length frames
      \<and> int (frame_idx s) = est_out_frames rnd mult (length frames)
      \<and> length (files s) = frame_idx s"
proof -
  obtain s where s: "process_frames rnd width height mult frames start_state = Inr s"
    "run_inv rnd width height mult s" "input_idx s = input_idx start_state + length frames"
    using process_frames_inv [OF assms(1,3,4), of start_state]
      start_state_inv [of rnd width height mult] assms(2) by blast
  then show ?thesis
    by (auto simp: run_inv_def start_state_def est_out_frames_def out_index_def)
qed

lemma gen_tasks_length:
  assumes "mono rnd" "rnd 0 = 0" "0 \<le> mult"
  shows "int (length (gen_tasks rnd mult frames)) = est_out_frames rnd mult (length frames)"
  using gen_tasks_from_length [OF assms(1,3), of frames 0 0] out_index_0 [of rnd mult] assms(2)
  by (simp add: gen_tasks_def est_out_frames_def out_index_def)

lemma exact_counts:
  assumes "0 \<le> mult" "rnd (of_nat i * mult) = of_nat i * mult"
  shows "out_index rnd mult i = \<lfloor>of_nat i * mult\<rfloor>"
proof -
  have "0 \<le> of_nat i * mult" using assms(1) by simp
  then show ?thesis using assms(2) by (simp add: out_index_def py_int_def not_less [symmetric])
qed

text \<open>
  C2, as stated: the number of emitted slots would be the floor of the exact product
  \<open>N * mult\<close>. The products of the code are float products. With 15 frames per
  second wanted from a source of 11, the ratio is the float nearest to \<open>15 / 11\<close>, and
  11 input frames give 14 slots in both extractors, where \<open>floor (11 * 15 / 11)\<close> is
  15. Nor is the total the floor of the exact product with the float ratio: with 1
  frame per second wanted from a source of 3, three input frames give one slot, and
  three times the float nearest to \<open>1 / 3\<close> is below one.
\<close>

theorem retiming_floor_counterexample:
  "map_sum id frame_idx
     (process_frames round_double 1 1 (multiplier round_double 15 11)
        (replicate 11 [[(0, 0, 0)], [(0, 0, 0)]]) start_state) = Inr 14
   \<and> length (gen_tasks round_double (multiplier round_double 15 11) (replicate 11 ())) = 14
   \<and> \<lfloor>11 * (15 / 11 :: rat)\<rfloor> = 15
   \<and> length (gen_tasks round_double (multiplier round_double 1 3) (replicate 3 ())) = 1
   \<and> \<lfloor>3 * multiplier round_double 1 3\<rfloor> = 0"
  by code_simp

text \<open>
  C2, amended. For any number of input frames and any ratio \<open>mult > 0\<close>, input frame
  \<open>i\<close> gets \<open>int((i+1) * mult) - int(i * mult)\<close> slots, and after \<open>k\<close> input frames
  exactly \<open>int(k * mult)\<close> slots have been emitted (files written by the ANSI
  extractor, tasks yielded by the raw extractor), also when \<open>mult < 1\<close>: the value
  that the code computes as \<open>est_out_frames\<close>. The products are those of the code,
  rounded by \<open>rnd\<close>; all that is used of the rounding is that it is monotone and keeps
  zero. Where a product is exact, \<open>int\<close> of it is the floor of the exact product, so
  there the counts and the total are floors of exact products; with \<open>mult = 1\<close> the
  total is the number of frames and every frame has one slot, hence no repeat.
\<close>

theorem retiming_conservation:
  assumes "mono rnd" and "rnd 0 = 0" and "0 < mult"
    and "list_all (is_grid (height * 2) width) frames"
  shows "(\<forall>k\<le>length frames. \<exists>s.
            process_frames rnd width height mult (take k frames) start_state = Inr s
            \<and> input_idx s = k
            \<and> int (frame_idx s) = est_out_frames rnd mult k
            \<and> length (files s) = frame_idx s)
       \<and> int (length (gen_tasks rnd mult raw_frames)) = est_out_frames rnd mult (length raw_frames)
       \<and> (\<forall>i. frames_to_generate rnd mult i
               = py_int (rnd (of_nat (i + 1) * mult)) - py_int (rnd (of_nat i * mult)))
       \<and> (\<forall>n. rnd (of_nat n * mult) = of_nat n * mult
              \<longrightarrow> est_out_frames rnd mult n = \<lfloor>of_nat n * mult\<rfloor>)
       \<and> (\<forall>i. rnd (of_nat i * mult) = of_nat i * mult
               \<and> rnd (of_nat (i + 1) * mult) = of_nat (i + 1) * mult
              \<longrightarrow> frames_to_generate rnd mult i
                  = \<lfloor>of_nat (i + 1) * mult\<rfloor> - \<lfloor>of_nat i * mult\<rfloor>)
       \<and> (mult = 1 \<longrightarrow> (\<forall>n. rnd (of_nat n) = of_nat n \<longrightarrow> est_out_frames rnd mult n = int n)
                     \<and> (\<forall>i. rnd (of_nat i) = of_nat i \<and> rnd (of_nat (i + 1)) = of_nat (i + 1)
                             \<longrightarrow> frames_to_generate rnd mult i = 1))"
proof -
  have m0: "0 \<le> mult" using assms(3) by simp
  have a: "\<exists>s. process_frames rnd width height mult (take k frames) start_state = Inr s
            \<and> input_idx s = k
            \<and> int (frame_idx s) = est_out_frames rnd mult k
            \<and> length (files s) = frame_idx s" if "k \<le> length frames" for k
  proof -
    have "list_all (is_grid (height * 2) width) (take k frames)"
      using assms(4) by (auto simp: list_all_iff dest: in_set_takeD)
    from run_prefix [OF assms(1,2) m0 this] that show ?thesis by simp
  qed
  have b: "int (length (gen_tasks rnd mult raw_frames)) = est_out_frames rnd mult (length raw_frames)"
    by (rule gen_tasks_length [OF assms(1,2) m0])
  have c: "frames_to_generate rnd mult i
               = py_int (rnd (of_nat (i + 1) * mult)) - py_int (rnd (of_nat i * mult))" for i
    by (simp add: frames_to_generate_def out_index_def Let_def)
  have d: "est_out_frames rnd mult n = \<lfloor>of_nat n * mult\<rfloor>"
    if "rnd (of_nat n * mult) = of_nat n * mult" for n
    using exact_counts [of mult rnd n] m0 that by (simp add: est_out_frames_def out_index_def)
  have e: "frames_to_generate rnd mult i = \<lfloor>of_nat (i + 1) * mult\<rfloor> - \<lfloor>of_nat i * mult\<rfloor>"
    if "rnd (of_nat i * mult) = of_nat i * mult"
       "rnd (of_nat (i + 1) * mult) = of_nat (i + 1) * mult" for i
    using exact_counts [of mult rnd i] exact_counts [of mult rnd "i + 1"] m0 that
    by (simp add: frames_to_generate_def Let_def)
  have f: "est_out_frames rnd mult n = int n" if "mult = 1" "rnd (of_nat n) = of_nat n" for n
    using that by (simp add: est_out_frames_def py_int_def)
  have g: "frames_to_generate rnd mult i = 1"
    if "mult = 1" "rnd (of_nat i) = of_nat i" "rnd (of_nat (i + 1)) = of_nat (i + 1)" for i
  proof -
    have "out_index rnd mult i = int i" "out_index rnd mult (i + 1) = int i + 1"
      using that by (simp_all add: out_index_def py_int_def)
    then show ?thesis by (simp add: frames_to_generate_def Let_def)
  qed
  from a b c d e f g show ?thesis by blast
qed

theorem retiming_conservation_witness:
  "mono (\<lambda>q::rat. q) \<and> (0::rat) < 1 / 2
   \<and> list_all (is_grid (1 * 2) 1) [[[(1, 2, 3)], [(4, 5, 6)]], [[(1, 2, 3)], [(4, 5, 6)]]]
   \<and> (\<exists>s. process_frames (\<lambda>q. q) 1 1 (1 / 2)
             [[[(1, 2, 3)], [(4, 5, 6)]], [[(1, 2, 3)], [(4, 5, 6)]]] start_state = Inr s
          \<and> input_idx s = 2 \<and> frame_idx s = 1 \<and> length (files s) = 1)
   \<and> length (gen_tasks (\<lambda>q. q) (1 / 2) [True, False]) = 1"
proof -
  let ?F = "[[[(1, 2, 3)], [(4, 5, 6)]], [[(1, 2, 3)], [(4, 5, 6)]]] :: grid list"
  have h1: "mono (\<lambda>q::rat. q)" by (simp add: mono_def)
  have h3: "(0::rat) < 1 / 2" by simp
  have h4: "list_all (is_grid (1 * 2) 1) ?F" by (simp add: is_grid_def)
  have e: "est_out_frames (\<lambda>q. q) (1 / 2) 2 = 1"
    by (simp add: est_out_frames_def py_int_def)
  note c = retiming_conservation [of "\<lambda>q. q" "1 / 2" 1 1 ?F "[True, False]", OF h1 refl h3 h4]
  have l: "2 \<le> length ?F" by simp
  from c [THEN conjunct1, rule_format, OF l] obtain s where
    s: "process_frames (\<lambda>q. q) 1 1 (1 / 2) (take 2 ?F) start_state = Inr s"
      "input_idx s = 2" "int (frame_idx s) = est_out_frames (\<lambda>q. q) (1 / 2) 2"
      "length (files s) = frame_idx s"
    by blast
  have t: "take 2 ?F = ?F" by simp
  from s(3,4) e have "frame_idx s = 1" "length (files s) = 1" by simp_all
  with s(1,2) have a: "\<exists>s. process_frames (\<lambda>q. q) 1 1 (1 / 2) ?F start_state = Inr s
          \<and> input_idx s = 2 \<and> frame_idx s = 1 \<and> length (files s) = 1"
    unfolding t by blast
  have l2: "length [True, False] = 2" by simp
  from c [THEN conjunct2, THEN conjunct1] e
  have b: "length (gen_tasks (\<lambda>q. q) (1 / 2) [True, False]) = 1"
    unfolding l2 by simp
  from h1 h3 h4 a b show ?thesis by blast
qed

text \<open>
  C10. For every input index and every \<open>mult \<ge> 0\<close> the slot count of the frame is not
  negative, so \<open>range(count)\<close> runs exactly \<open>count\<close> times, and the repeat loop over
  \<open>range(frames_to_generate - 1)\<close> runs \<open>frames_to_generate - 1\<close> times, or not at all
  when the count is zero.
\<close>

theorem frames_to_generate_nonneg:
  assumes "mono rnd" "0 \<le> mult"
  shows "0 \<le> frames_to_generate rnd mult i
    \<and> int (nat (frames_to_generate rnd mult i)) = frames_to_generate rnd mult i
    \<and> int (nat (frames_to_generate rnd mult i - 1)) = max 0 (frames_to_generate rnd mult i - 1)"
  using out_index_step [OF assms, of i] by (simp add: frames_to_generate_def Let_def)

theorem frames_to_generate_nonneg_witness:
  "mono (\<lambda>q::rat. q) \<and> (0::rat) \<le> 1 / 2 \<and> frames_to_generate (\<lambda>q. q) (1 / 2) 1 = 1
   \<and> 0 \<le> frames_to_generate (\<lambda>q. q) (1 / 2) 1"
proof -
  have f: "frames_to_generate (\<lambda>q. q) (1 / 2) 1 = 1"
    by (simp add: frames_to_generate_def out_index_def py_int_def floor_eq_iff)
  have m: "mono (\<lambda>q::rat. q)" by (simp add: mono_def)
  show ?thesis using frames_to_generate_nonneg [OF m, of "1 / 2" 1] f m by simp
qed

section \<open>The first frame\<close>

lemma for_each_measure:
  assumes "\<And>i s. i \<in> set js \<Longrightarrow> \<exists>s'. f i s = Inr s' \<and> m s' = m s + (c::nat)"
  shows "\<exists>s'. for_each js f s = Inr s' \<and> m s' = m s + c * length js"
  using assms
proof (induction js arbitrary: s)
  case Nil
  then show ?case by simp
next
  case (Cons j js)
  obtain s1 where s1: "f j s = Inr s1" "m s1 = m s + c"
    using Cons.prems [of j s] by auto
  obtain s2 where "for_each js f s1 = Inr s2" "m s2 = m s1 + c * length js"
    using Cons.IH [of s1] Cons.prems by auto
  with s1 show ?case by simp
qed

lemma draw_cell_draws:
  "count_list (ansi_parts (draw_cell y x a b t)) Draw = count_list (ansi_parts t) Draw + 1"
  by (simp add: draw_cell_def Let_def)

lemma cell_step_first_frame:
  assumes "is_grid (height * 2) width rgb" "y < height" "x < width"
  shows "cell_step rgb None y x t
         = Inr (draw_cell y x (rgb ! (y * 2) ! x) (rgb ! (y * 2 + 1) ! x) t)"
proof -
  from assms(1) have len: "length rgb = height * 2" and rows: "list_all (\<lambda>r. width \<le> length r) rgb"
    by (auto simp: is_grid_def list_all_length)
  have a: "px rgb (y * 2) x = Inr (rgb ! (y * 2) ! x)"
    using len assms(2,3) by (intro px_in [OF _ rows]) auto
  have b: "px rgb (y * 2 + 1) x = Inr (rgb ! (y * 2 + 1) ! x)"
    using len assms(2,3) by (intro px_in [OF _ rows]) auto
  from a b show ?thesis by (simp add: cell_step_def cell_changed_def Let_def)
qed

lemma row_step_first_frame_draws:
  assumes "is_grid (height * 2) width rgb" "y < height"
  shows "\<exists>t'. row_step width rgb None y t = Inr t'
     \<and> count_list (ansi_parts t') Draw = count_list (ansi_parts t) Draw + width"
proof -
  have "\<exists>t'. for_each [0..<width] (cell_step rgb None y) t = Inr t'
     \<and> count_list (ansi_parts t') Draw = count_list (ansi_parts t) Draw + 1 * length [0..<width]"
    by (rule for_each_measure)
      (use assms in \<open>auto simp: cell_step_first_frame draw_cell_draws\<close>)
  then show ?thesis by (simp add: row_step_def row_unchanged_def)
qed

lemma finish_draws: "count_list (finish ps) Draw = count_list ps Draw"
  by (simp add: finish_def)

text \<open>
  C6. Encoding a grid of \<open>width\<close> by \<open>2 * height\<close> pixels with no previous frame
  emits exactly \<open>width * height\<close> draw tokens: every cell counts as changed and is drawn
  once.
\<close>

theorem first_frame_draws_every_cell:
  assumes "is_grid (height * 2) width rgb"
  shows "\<exists>parts. encode width height rgb None = Inr parts
           \<and> count_list parts Draw = width * height"
proof -
  have "\<exists>t'. for_each [0..<height] (row_step width rgb None) (reset_vars unbound) = Inr t'
     \<and> count_list (ansi_parts t') Draw
        = count_list (ansi_parts (reset_vars unbound)) Draw + width * length [0..<height]"
    by (rule for_each_measure) (use assms in \<open>auto intro: row_step_first_frame_draws\<close>)
  then obtain t' where "for_each [0..<height] (row_step width rgb None) (reset_vars unbound) = Inr t'"
    "count_list (ansi_parts t') Draw = width * height"
    by (auto simp: reset_vars_def)
  then show ?thesis by (simp add: encode_def generate_diff_def finish_draws)
qed

theorem first_frame_draws_every_cell_witness:
  "is_grid (1 * 2) 2 [[(1, 2, 3), (1, 2, 3)], [(4, 5, 6), (7, 8, 9)]]
   \<and> (\<exists>parts. encode 2 1 [[(1, 2, 3), (1, 2, 3)], [(4, 5, 6), (7, 8, 9)]] None = Inr parts
         \<and> count_list parts Draw = 2 * 1)"
proof -
  have g: "is_grid (1 * 2) 2 [[(1, 2, 3), (1, 2, 3)], [(4, 5, 6), (7, 8, 9)]]"
    by (simp add: is_grid_def)
  from first_frame_draws_every_cell [OF g] g show ?thesis by blast
qed

section \<open>The binary payload\<close>

lemma concat_uniform_length:
  "(\<And>b. b \<in> set bs \<Longrightarrow> length b = n) \<Longrightarrow> length (concat bs) = length bs * n"
  by (induction bs) simp_all

lemma concat_uniform_nth:
  "(\<And>b. b \<in> set bs \<Longrightarrow> length b = n) \<Longrightarrow> i < length bs \<Longrightarrow> j < n
   \<Longrightarrow> concat bs ! (i * n + j) = bs ! i ! j"
proof (induction bs arbitrary: i)
  case Nil
  then show ?case by simp
next
  case (Cons b bs)
  show ?case
  proof (cases i)
    case 0
    with Cons.prems show ?thesis by (simp add: nth_append)
  next
    case (Suc k)
    with Cons.prems have "concat bs ! (k * n + j) = bs ! k ! j"
      by (intro Cons.IH) auto
    moreover have "length b = n" using Cons.prems(1) by simp
    ultimately show ?thesis using Suc by (simp add: nth_append)
  qed
qed

lemma row_bytes_length: "length (concat (map pixel_bytes row)) = length row * 3"
  by (subst concat_uniform_length [where n = 3]) (auto simp: pixel_bytes_def split: prod.splits)

lemma row_bytes_nth:
  "x < length row \<Longrightarrow> c < 3 \<Longrightarrow> concat (map pixel_bytes row) ! (x * 3 + c) = pixel_bytes (row ! x) ! c"
  by (subst concat_uniform_nth [where n = 3]) (auto simp: pixel_bytes_def split: prod.splits)

lemma tobytes_length:
  assumes "is_grid n m g"
  shows "length (tobytes g) = n * (m * 3)"
  unfolding tobytes_def
  by (subst concat_uniform_length [where n = "m * 3"])
    (use assms in \<open>auto simp: is_grid_def list_all_iff row_bytes_length\<close>)

lemma tobytes_nth:
  assumes "is_grid n m g" "y < n" "x < m" "c < 3"
  shows "tobytes g ! ((y * m + x) * 3 + c) = pixel_bytes (g ! y ! x) ! c"
proof -
  let ?bs = "map (\<lambda>row. concat (map pixel_bytes row)) g"
  have rows: "\<And>b. b \<in> set ?bs \<Longrightarrow> length b = m * 3"
    using assms(1) by (auto simp: is_grid_def list_all_iff row_bytes_length)
  have ylen: "y < length ?bs"
    using assms(1,2) by (simp add: is_grid_def)
  have ly: "length (g ! y) = m"
    using assms(1,2) by (auto simp: is_grid_def list_all_length)
  have j: "x * 3 + c < m * 3"
    using assms(3,4) by simp
  have idx: "(y * m + x) * 3 + c = y * (m * 3) + (x * 3 + c)"
    by (simp add: algebra_simps)
  have "concat ?bs ! (y * (m * 3) + (x * 3 + c)) = ?bs ! y ! (x * 3 + c)"
    using rows ylen j by (rule concat_uniform_nth)
  also have "?bs ! y = concat (map pixel_bytes (g ! y))"
    using ylen by simp
  also have "concat (map pixel_bytes (g ! y)) ! (x * 3 + c) = pixel_bytes (g ! y ! x) ! c"
    using row_bytes_nth [of x "g ! y" c] ly assms(3,4) by simp
  finally show ?thesis
    unfolding tobytes_def idx .
qed

lemma pack_H_ok:
  assumes "0 \<le> v" "v \<le> 65535"
  shows "\<exists>lo hi. pack_H v = Some [lo, hi] \<and> uint lo + 256 * uint hi = v"
proof -
  have "uint (word_of_int (v mod 256) :: 8 word) = v mod 256"
    by (simp add: uint_word_of_int)
  moreover have "uint (word_of_int (v div 256) :: 8 word) = v div 256"
    using assms by (simp add: uint_word_of_int)
  ultimately show ?thesis using assms by (simp add: pack_H_def)
qed

text \<open>
  C9. A binary payload starts with four bytes, the width and then the height as
  unsigned 16-bit numbers, low byte first, and goes on with exactly
  \<open>width * (height * 2) * 3\<close> bytes: the pixel of row \<open>y\<close> and column \<open>x\<close> of the full
  frame is at offset \<open>4 + (y * width + x) * 3\<close>, as R, G, B, rows from the top. The
  payload exists when both numbers are positive and fit 16 bits.
\<close>

theorem binary_payload_format:
  assumes "0 < w" "w \<le> 65535" "0 < h" "h \<le> 65535"
    and "is_grid (nat h * 2) (nat w) rgb"
  shows "\<exists>payload. process_task_payload w h rgb = Some payload
     \<and> length payload = 4 + nat w * (nat h * 2) * 3
     \<and> uint (payload ! 0) + 256 * uint (payload ! 1) = w
     \<and> uint (payload ! 2) + 256 * uint (payload ! 3) = h
     \<and> (\<forall>y<nat h * 2. \<forall>x<nat w.
           (payload ! (4 + (y * nat w + x) * 3),
            payload ! (4 + (y * nat w + x) * 3 + 1),
            payload ! (4 + (y * nat w + x) * 3 + 2)) = rgb ! y ! x)"
proof -
  obtain a b where wb: "pack_H w = Some [a, b]" "uint a + 256 * uint b = w"
    using pack_H_ok [of w] assms(1,2) by auto
  obtain c d where hb: "pack_H h = Some [c, d]" "uint c + 256 * uint d = h"
    using pack_H_ok [of h] assms(3,4) by auto
  let ?payload = "[a, b, c, d] @ tobytes rgb"
  have p: "process_task_payload w h rgb = Some ?payload"
    using wb(1) hb(1) by (simp add: process_task_payload_def pack_HH_def)
  have len: "length ?payload = 4 + nat w * (nat h * 2) * 3"
    using tobytes_length [OF assms(5)] by (simp add: algebra_simps)
  have pix: "(?payload ! (4 + (y * nat w + x) * 3),
            ?payload ! (4 + (y * nat w + x) * 3 + 1),
            ?payload ! (4 + (y * nat w + x) * 3 + 2)) = rgb ! y ! x"
    if "y < nat h * 2" "x < nat w" for y x
  proof -
    have p4: "?payload ! (4 + k) = tobytes rgb ! k" for k
      by (simp add: nth_append)
    have t: "tobytes rgb ! ((y * nat w + x) * 3 + c) = pixel_bytes (rgb ! y ! x) ! c"
      if "c < 3" for c
      using tobytes_nth [OF assms(5) \<open>y < nat h * 2\<close> \<open>x < nat w\<close> that] .
    have "?payload ! (4 + (y * nat w + x) * 3) = pixel_bytes (rgb ! y ! x) ! 0"
      unfolding p4 using t [of 0] by simp
    moreover have "?payload ! (4 + (y * nat w + x) * 3 + 1) = pixel_bytes (rgb ! y ! x) ! 1"
      unfolding add.assoc p4 using t [of 1] by simp
    moreover have "?payload ! (4 + (y * nat w + x) * 3 + 2) = pixel_bytes (rgb ! y ! x) ! 2"
      unfolding add.assoc p4 using t [of 2] by simp
    ultimately show ?thesis
      by (cases "rgb ! y ! x") (simp add: pixel_bytes_def)
  qed
  from p len wb(2) hb(2) pix show ?thesis
    by (intro exI [of _ ?payload]) simp
qed

theorem binary_payload_format_witness:
  "(0::int) < 1 \<and> (1::int) \<le> 65535
   \<and> is_grid (nat 1 * 2) (nat 1) [[(1, 2, 3)], [(4, 5, 6)]]
   \<and> (\<exists>payload. process_task_payload 1 1 [[(1, 2, 3)], [(4, 5, 6)]] = Some payload
         \<and> length payload = 4 + nat 1 * (nat 1 * 2) * 3)
   \<and> process_task_payload 1 1 [[(1, 2, 3)], [(4, 5, 6)]] = Some [1, 0, 1, 0, 1, 2, 3, 4, 5, 6]"
proof -
  have g: "is_grid (nat 1 * 2) (nat 1) [[(1, 2, 3)], [(4, 5, 6)]]"
    by (simp add: is_grid_def)
  have b: "(0::int) < 1" "(1::int) \<le> 65535"
    by simp_all
  from binary_payload_format [OF b b g]
  have a: "\<exists>payload. process_task_payload 1 1 [[(1, 2, 3)], [(4, 5, 6)]] = Some payload
         \<and> length payload = 4 + nat 1 * (nat 1 * 2) * 3"
    by blast
  have c: "process_task_payload 1 1 [[(1, 2, 3)], [(4, 5, 6)]] = Some [1, 0, 1, 0, 1, 2, 3, 4, 5, 6]"
    by (simp add: process_task_payload_def pack_HH_def pack_H_def tobytes_def pixel_bytes_def)
  from a b c g show ?thesis by blast
qed

section \<open>The previous frame of a run\<close>

text \<open>
  The previous frame is only ever assigned the current grid, so in a run whose grids
  all have the run's dimensions it has them too, or is still \<open>None\<close>.
\<close>

lemma write_repeats_prev_rgb: "prev_rgb (write_repeats n s) = prev_rgb s"
  by (induction n arbitrary: s) (simp_all add: save_frame_def)

lemma process_frame_prev_rgb:
  assumes "process_frame rnd width height mult rgb s = Inr s'"
  shows "prev_rgb s' = prev_rgb s \<or> prev_rgb s' = Some rgb"
  using assms
  by (auto simp: process_frame_def Let_def write_repeats_prev_rgb save_frame_def
      split: if_splits sum.splits)

lemma process_frames_prev_rgb:
  "list_all (is_grid (height * 2) width) frames
   \<Longrightarrow> process_frames rnd width height mult frames s = Inr s'
   \<Longrightarrow> (case prev_rgb s of None \<Rightarrow> True | Some p \<Rightarrow> is_grid (height * 2) width p)
   \<Longrightarrow> (case prev_rgb s' of None \<Rightarrow> True | Some p \<Rightarrow> is_grid (height * 2) width p)"
proof (induction frames arbitrary: s)
  case Nil
  then show ?case by simp
next
  case (Cons rgb rest)
  from Cons.prems(2) obtain s1 where s1: "process_frame rnd width height mult rgb s = Inr s1"
    "process_frames rnd width height mult rest s1 = Inr s'"
    by (auto split: sum.splits)
  from process_frame_prev_rgb [OF s1(1)] Cons.prems(1,3)
  have "case prev_rgb s1 of None \<Rightarrow> True | Some p \<Rightarrow> is_grid (height * 2) width p"
    by auto
  with Cons.IH [OF _ s1(2)] Cons.prems(1) show ?case by simp
qed

section \<open>Moves for a run of adjacent changed cells\<close>

lemma for_each_append:
  "for_each (xs @ ys) f s = (case for_each xs f s of Inl e \<Rightarrow> Inl e | Inr s' \<Rightarrow> for_each ys f s')"
  by (induction xs arbitrary: s) (auto split: sum.splits)

lemma for_each_preserves:
  "for_each js f s = Inr s' \<Longrightarrow> P s
   \<Longrightarrow> (\<And>i s s'. i \<in> set js \<Longrightarrow> P s \<Longrightarrow> f i s = Inr s' \<Longrightarrow> P s') \<Longrightarrow> P s'"
proof (induction js arbitrary: s)
  case Nil
  then show ?case by simp
next
  case (Cons j js)
  from Cons.prems(1) obtain s1 where s1: "f j s = Inr s1" "for_each js f s1 = Inr s'"
    by (auto split: sum.splits)
  have p1: "P s1" using Cons.prems(3) [of j s s1] Cons.prems(2) s1(1) by simp
  show ?case
  proof (rule Cons.IH [OF s1(2) p1])
    fix i u u'
    assume "i \<in> set js" "P u" "f i u = Inr u'"
    then show "P u'" using Cons.prems(3) [of i u u'] by simp
  qed
qed

lemma cell_step_eq:
  assumes "is_grid (height * 2) width rgb" "covers width height prev" "y < height" "x < width"
  shows "cell_step rgb prev y x t
         = Inr (if changed_at rgb prev y x
                then draw_cell y x (rgb ! (y * 2) ! x) (rgb ! (y * 2 + 1) ! x) t else t)"
proof -
  from assms(1) have len: "length rgb = height * 2" and rows: "list_all (\<lambda>r. width \<le> length r) rgb"
    by (auto simp: is_grid_def list_all_length)
  have a: "px rgb (y * 2) x = Inr (rgb ! (y * 2) ! x)"
    using len assms(3,4) by (intro px_in [OF _ rows]) auto
  have b: "px rgb (y * 2 + 1) x = Inr (rgb ! (y * 2 + 1) ! x)"
    using len assms(3,4) by (intro px_in [OF _ rows]) auto
  show ?thesis
  proof (cases prev)
    case None
    with a b show ?thesis by (simp add: cell_step_def cell_changed_def changed_at_def Let_def)
  next
    case (Some p)
    with assms(2) have plen: "height * 2 \<le> length p" and prows: "list_all (\<lambda>r. width \<le> length r) p"
      by (simp_all add: covers_def)
    have c: "px p (y * 2) x = Inr (p ! (y * 2) ! x)"
      using plen assms(3,4) by (intro px_in [OF _ prows]) auto
    have d: "px p (y * 2 + 1) x = Inr (p ! (y * 2 + 1) ! x)"
      using plen assms(3,4) by (intro px_in [OF _ prows]) auto
    from a b c d Some show ?thesis
      by (simp add: cell_step_def cell_changed_def changed_at_def Let_def)
  qed
qed

lemma draw_cell_moves:
  "moves_to_row r (ansi_parts (draw_cell y x tp bt t))
   = moves_to_row r (ansi_parts t)
     @ (if r = y + 1 \<and> \<not> (cursor_y t = y + 1 \<and> cursor_x t = x + 1)
        then [Move (y + 1) (x + 1)] else [])"
  by (simp add: draw_cell_def Let_def moves_to_row_def)

lemma draw_cell_cursor:
  "cursor_y (draw_cell y x tp bt t) = y + 1"
  "cursor_x (draw_cell y x tp bt t) = x + 2"
  by (simp_all add: draw_cell_def Let_def)

lemma scan_quiet:
  assumes "is_grid (height * 2) width rgb" "covers width height prev" "y < height"
    and "\<And>x. x \<in> set xs \<Longrightarrow> x < width \<and> \<not> changed_at rgb prev y x"
  shows "for_each xs (cell_step rgb prev y) t = Inr t"
  by (rule for_each_skip) (use assms in \<open>simp add: cell_step_eq\<close>)

lemma scan_run:
  assumes "is_grid (height * 2) width rgb" "covers width height prev" "y < height"
  shows "a + k \<le> width \<Longrightarrow> (\<And>x. a \<le> x \<Longrightarrow> x < a + k \<Longrightarrow> changed_at rgb prev y x) \<Longrightarrow>
     \<exists>t'. for_each [a..<a + k] (cell_step rgb prev y) t = Inr t'
       \<and> moves_to_row r (ansi_parts t')
          = moves_to_row r (ansi_parts t)
            @ (if 0 < k \<and> r = y + 1 \<and> \<not> (cursor_y t = y + 1 \<and> cursor_x t = a + 1)
               then [Move (y + 1) (a + 1)] else [])
       \<and> (0 < k \<longrightarrow> cursor_y t' = y + 1 \<and> cursor_x t' = a + k + 1)
       \<and> (k = 0 \<longrightarrow> t' = t)"
proof (induction k)
  case 0
  then show ?case by simp
next
  case (Suc k)
  from Suc.prems have "a + k \<le> width"
    and "\<And>x. a \<le> x \<Longrightarrow> x < a + k \<Longrightarrow> changed_at rgb prev y x" by auto
  from Suc.IH [OF this] obtain t1 where t1:
    "for_each [a..<a + k] (cell_step rgb prev y) t = Inr t1"
    "moves_to_row r (ansi_parts t1)
          = moves_to_row r (ansi_parts t)
            @ (if 0 < k \<and> r = y + 1 \<and> \<not> (cursor_y t = y + 1 \<and> cursor_x t = a + 1)
               then [Move (y + 1) (a + 1)] else [])"
    "0 < k \<longrightarrow> cursor_y t1 = y + 1 \<and> cursor_x t1 = a + k + 1"
    "k = 0 \<longrightarrow> t1 = t"
    by blast
  let ?t2 = "draw_cell y (a + k) (rgb ! (y * 2) ! (a + k)) (rgb ! (y * 2 + 1) ! (a + k)) t1"
  have ch: "changed_at rgb prev y (a + k)" using Suc.prems(2) by simp
  have xk: "a + k < width" using Suc.prems(1) by simp
  have step: "cell_step rgb prev y (a + k) t1 = Inr ?t2"
    using cell_step_eq [OF assms xk] ch by simp
  have run: "for_each [a..<a + Suc k] (cell_step rgb prev y) t = Inr ?t2"
    using t1(1) step by (simp add: for_each_append)
  have mv: "moves_to_row r (ansi_parts ?t2)
          = moves_to_row r (ansi_parts t)
            @ (if r = y + 1 \<and> \<not> (cursor_y t = y + 1 \<and> cursor_x t = a + 1)
               then [Move (y + 1) (a + 1)] else [])"
  proof (cases "k = 0")
    case True
    with t1(4) show ?thesis by (simp add: draw_cell_moves)
  next
    case False
    with t1(2,3) show ?thesis by (simp add: draw_cell_moves)
  qed
  from run mv show ?case by (simp add: draw_cell_cursor)
qed

lemma band_two: "y2 + 1 < length g \<Longrightarrow> band g y2 = [g ! y2, g ! (y2 + 1)]"
proof -
  assume "y2 + 1 < length g"
  then have "drop y2 g = g ! y2 # g ! (y2 + 1) # drop (y2 + 2) g"
    by (metis Cons_nth_drop_Suc Suc_eq_plus1 Suc_lessD add_2_eq_Suc')
  then show ?thesis by (simp add: band_def)
qed

lemma changed_row_not_skipped:
  assumes "is_grid (height * 2) width rgb" "covers width height prev" "y < height"
    and "changed_at rgb prev y x"
  shows "\<not> row_unchanged rgb prev y"
proof (cases prev)
  case None
  then show ?thesis by (simp add: row_unchanged_def)
next
  case (Some p)
  with assms(2) have "y * 2 + 1 < length p" using assms(3) by (simp add: covers_def)
  then have bp: "band p (y * 2) = [p ! (y * 2), p ! (y * 2 + 1)]" by (rule band_two)
  have "y * 2 + 1 < length rgb" using assms(1,3) by (simp add: is_grid_def)
  then have br: "band rgb (y * 2) = [rgb ! (y * 2), rgb ! (y * 2 + 1)]" by (rule band_two)
  from assms(4) Some bp br show ?thesis
    by (auto simp: row_unchanged_def changed_at_def)
qed

lemma row_with_run:
  assumes "is_grid (height * 2) width rgb" "covers width height prev" "y < height"
    and "0 < k" "a + k \<le> width"
    and run: "\<And>x. x < width \<Longrightarrow> changed_at rgb prev y x \<longleftrightarrow> a \<le> x \<and> x < a + k"
  shows "\<exists>t'. row_step width rgb prev y t = Inr t'
       \<and> moves_to_row r (ansi_parts t')
          = moves_to_row r (ansi_parts t)
            @ (if r = y + 1 \<and> \<not> (cursor_y t = y + 1 \<and> cursor_x t = a + 1)
               then [Move (y + 1) (a + 1)] else [])"
proof -
  have "changed_at rgb prev y a" using run [of a] assms(4,5) by simp
  then have ns: "\<not> row_unchanged rgb prev y"
    by (rule changed_row_not_skipped [OF assms(1,2,3)])
  have "[0..<a + k + (width - (a + k))] = [0..<a + k] @ [a + k..<a + k + (width - (a + k))]"
    by (rule upt_add_eq_append) simp
  moreover have "[0..<0 + a + k] = [0..<0 + a] @ [0 + a..<0 + a + k]"
    by (rule upt_add_eq_append) simp
  ultimately have split: "[0..<width] = [0..<a] @ [a..<a + k] @ [a + k..<width]"
    using assms(5) by simp
  have q1: "for_each [0..<a] (cell_step rgb prev y) t = Inr t"
    by (rule scan_quiet [OF assms(1,2,3)]) (use run assms(5) in auto)
  obtain t' where t': "for_each [a..<a + k] (cell_step rgb prev y) t = Inr t'"
    "moves_to_row r (ansi_parts t')
          = moves_to_row r (ansi_parts t)
            @ (if 0 < k \<and> r = y + 1 \<and> \<not> (cursor_y t = y + 1 \<and> cursor_x t = a + 1)
               then [Move (y + 1) (a + 1)] else [])"
    using scan_run [OF assms(1,2,3,5), where t = t and r = r] run assms(5) by auto
  have q2: "for_each [a + k..<width] (cell_step rgb prev y) t' = Inr t'"
    by (rule scan_quiet [OF assms(1,2,3)]) (use run in auto)
  have "row_step width rgb prev y t = Inr t'"
    using ns q1 t'(1) q2 by (simp add: row_step_def split for_each_append)
  with t'(2) assms(4) show ?thesis by simp
qed

lemma cell_other:
  assumes "is_grid (height * 2) width rgb" "covers width height prev" "y < height" "x < width"
    and "cell_step rgb prev y x t = Inr t'"
  shows "r \<noteq> y + 1 \<Longrightarrow> moves_to_row r (ansi_parts t') = moves_to_row r (ansi_parts t)"
    and "cursor_y t \<le> B \<Longrightarrow> y + 1 \<le> B \<Longrightarrow> cursor_y t' \<le> B"
  using assms(5) unfolding cell_step_eq [OF assms(1-4)]
  by (auto simp: draw_cell_moves draw_cell_cursor split: if_splits)

lemma row_other:
  assumes "is_grid (height * 2) width rgb" "covers width height prev" "y < height"
    and "row_step width rgb prev y t = Inr t'"
  shows "r \<noteq> y + 1 \<Longrightarrow> moves_to_row r (ansi_parts t') = moves_to_row r (ansi_parts t)"
    and "cursor_y t \<le> B \<Longrightarrow> y + 1 \<le> B \<Longrightarrow> cursor_y t' \<le> B"
proof -
  show "moves_to_row r (ansi_parts t') = moves_to_row r (ansi_parts t)" if "r \<noteq> y + 1"
  proof (cases "row_unchanged rgb prev y")
    case True
    with assms(4) show ?thesis by (simp add: row_step_def)
  next
    case False
    with assms(4) have fe: "for_each [0..<width] (cell_step rgb prev y) t = Inr t'"
      by (simp add: row_step_def)
    show ?thesis
    proof (rule for_each_preserves
          [where P = "\<lambda>s. moves_to_row r (ansi_parts s) = moves_to_row r (ansi_parts t)", OF fe])
      fix i u u'
      assume "i \<in> set [0..<width]"
        "moves_to_row r (ansi_parts u) = moves_to_row r (ansi_parts t)"
        "cell_step rgb prev y i u = Inr u'"
      then show "moves_to_row r (ansi_parts u') = moves_to_row r (ansi_parts t)"
        using cell_other(1) [OF assms(1,2,3), of i u u' r] that by simp
    qed simp
  qed
  show "cursor_y t' \<le> B" if "cursor_y t \<le> B" "y + 1 \<le> B"
  proof (cases "row_unchanged rgb prev y")
    case True
    with assms(4) that show ?thesis by (simp add: row_step_def)
  next
    case False
    with assms(4) have fe: "for_each [0..<width] (cell_step rgb prev y) t = Inr t'"
      by (simp add: row_step_def)
    show ?thesis
    proof (rule for_each_preserves [where P = "\<lambda>s. cursor_y s \<le> B", OF fe])
      fix i u u'
      assume "i \<in> set [0..<width]" "cursor_y u \<le> B" "cell_step rgb prev y i u = Inr u'"
      then show "cursor_y u' \<le> B"
        using cell_other(2) [OF assms(1,2,3), of i u u' B] that by simp
    qed (rule that)
  qed
qed


lemma finish_moves: "moves_to_row r (finish ps) = moves_to_row r ps"
  by (simp add: finish_def moves_to_row_def)

lemma rows_split:
  assumes "y < height"
  shows "[0..<height] = [0..<y] @ y # [Suc y..<height]"
proof -
  have "[0..<0 + y + (height - y)] = [0..<0 + y] @ [0 + y..<0 + y + (height - y)]"
    by (rule upt_add_eq_append) simp
  then have "[0..<height] = [0..<y] @ [y..<height]"
    using assms by simp
  then show ?thesis
    using assms by (simp add: upt_conv_Cons)
qed

text \<open>
  C5, as stated: a row whose changed cells are \<open>k\<close> adjacent ones would get exactly one
  move token. On the first frame of a grid of two cells both cells of row 0 are changed
  and adjacent, and the stream has no move token at all.
\<close>

theorem run_at_home_no_move_counterexample:
  "changed_at [[(255, 0, 0), (255, 0, 0)], [(0, 255, 0), (0, 255, 0)]] None 0 0
   \<and> changed_at [[(255, 0, 0), (255, 0, 0)], [(0, 255, 0), (0, 255, 0)]] None 0 1
   \<and> encode 2 1 [[(255, 0, 0), (255, 0, 0)], [(0, 255, 0), (0, 255, 0)]] None
       = Inr [SetBg (255, 0, 0), SetFg (0, 255, 0), Draw, Draw, Reset]"
  by code_simp

text \<open>
  C5, amended. When the changed cells of row \<open>y\<close> are exactly the \<open>k \<ge> 1\<close> adjacent
  cells of columns \<open>a\<close> to \<open>a + k - 1\<close>, the stream has exactly one move token that
  targets the row, the move to the first cell of the run, and never \<open>k\<close> of them; the
  exception is a run that starts in the home cell (row 0, column 0), where the tracked
  cursor already is at the start of the encoding: then the stream has no move token for
  the row.
\<close>

theorem adjacent_run_one_move:
  assumes "is_grid (height * 2) width rgb"
    and "case prev of None \<Rightarrow> True | Some p \<Rightarrow> is_grid (height * 2) width p"
    and "y < height" and "0 < k" and "a + k \<le> width"
    and "\<forall>x<width. changed_at rgb prev y x \<longleftrightarrow> a \<le> x \<and> x < a + k"
  shows "\<exists>parts. encode width height rgb prev = Inr parts
      \<and> moves_to_row (y + 1) parts = (if y = 0 \<and> a = 0 then [] else [Move (y + 1) (a + 1)])"
proof -
  let ?t0 = "reset_vars unbound"
  let ?row = "row_step width rgb prev"
  have cov: "covers width height prev"
    using assms(2) by (cases prev) (auto simp: covers_def is_grid_def list_all_length)
  note wf = assms(1) cov
  obtain t3 where t3: "for_each [0..<height] ?row ?t0 = Inr t3"
    using for_each_ok [of "[0..<height]" ?row ?t0] row_step_ok [OF wf] by auto
  from t3 obtain t1 t2 where t1: "for_each [0..<y] ?row ?t0 = Inr t1"
    and t2: "?row y t1 = Inr t2" and t3': "for_each [Suc y..<height] ?row t2 = Inr t3"
    unfolding rows_split [OF assms(3)] for_each_append
    by (auto split: sum.splits)
  have m1: "moves_to_row (y + 1) (ansi_parts t1) = []"
  proof (rule for_each_preserves [where P = "\<lambda>s. moves_to_row (y + 1) (ansi_parts s) = []", OF t1])
    show "moves_to_row (y + 1) (ansi_parts ?t0) = []"
      by (simp add: reset_vars_def moves_to_row_def)
  next
    fix i u u'
    assume "i \<in> set [0..<y]" "moves_to_row (y + 1) (ansi_parts u) = []" "?row i u = Inr u'"
    then show "moves_to_row (y + 1) (ansi_parts u') = []"
      using row_other(1) [OF wf, of i u u' "y + 1"] assms(3) by simp
  qed
  have c1: "cursor_y t1 \<le> y" if "0 < y"
  proof (rule for_each_preserves [where P = "\<lambda>s. cursor_y s \<le> y", OF t1])
    show "cursor_y ?t0 \<le> y" using that by (simp add: reset_vars_def)
  next
    fix i u u'
    assume "i \<in> set [0..<y]" "cursor_y u \<le> y" "?row i u = Inr u'"
    then show "cursor_y u' \<le> y"
      using row_other(2) [OF wf, of i u u' y] assms(3) by simp
  qed
  have home: "cursor_y t1 = 1 \<and> cursor_x t1 = 1" if "y = 0"
  proof -
    from t1 that have "t1 = ?t0" by simp
    then show ?thesis by (simp add: reset_vars_def)
  qed
  have at_target: "(cursor_y t1 = y + 1 \<and> cursor_x t1 = a + 1) \<longleftrightarrow> (y = 0 \<and> a = 0)"
  proof (cases "y = 0")
    case True
    with home show ?thesis by auto
  next
    case False
    with c1 show ?thesis by auto
  qed
  obtain t2' where "?row y t1 = Inr t2'"
    "moves_to_row (y + 1) (ansi_parts t2')
          = moves_to_row (y + 1) (ansi_parts t1)
            @ (if y + 1 = y + 1 \<and> \<not> (cursor_y t1 = y + 1 \<and> cursor_x t1 = a + 1)
               then [Move (y + 1) (a + 1)] else [])"
    using row_with_run [OF wf assms(3,4,5), of t1 "y + 1"] assms(6) by blast
  with t2 m1 at_target have m2:
    "moves_to_row (y + 1) (ansi_parts t2) = (if y = 0 \<and> a = 0 then [] else [Move (y + 1) (a + 1)])"
    by auto
  have m3: "moves_to_row (y + 1) (ansi_parts t3) = moves_to_row (y + 1) (ansi_parts t2)"
  proof (rule for_each_preserves
      [where P = "\<lambda>s. moves_to_row (y + 1) (ansi_parts s) = moves_to_row (y + 1) (ansi_parts t2)",
        OF t3'])
    fix i u u'
    assume "i \<in> set [Suc y..<height]"
      "moves_to_row (y + 1) (ansi_parts u) = moves_to_row (y + 1) (ansi_parts t2)"
      "?row i u = Inr u'"
    then show "moves_to_row (y + 1) (ansi_parts u') = moves_to_row (y + 1) (ansi_parts t2)"
      using row_other(1) [OF wf, of i u u' "y + 1"] by simp
  qed simp
  from t3 have "encode width height rgb prev = Inr (finish (ansi_parts t3))"
    by (simp add: encode_def generate_diff_def)
  with m2 m3 show ?thesis by (simp add: finish_moves)
qed

theorem adjacent_run_one_move_witness:
  "is_grid (1 * 2) 2 [[(1, 2, 3), (7, 7, 7)], [(4, 5, 6), (4, 5, 6)]]
   \<and> is_grid (1 * 2) 2 [[(1, 2, 3), (1, 2, 3)], [(4, 5, 6), (4, 5, 6)]]
   \<and> (\<exists>parts. encode 2 1 [[(1, 2, 3), (7, 7, 7)], [(4, 5, 6), (4, 5, 6)]]
                 (Some [[(1, 2, 3), (1, 2, 3)], [(4, 5, 6), (4, 5, 6)]]) = Inr parts
         \<and> moves_to_row 1 parts = [Move 1 2])"
proof -
  let ?g = "[[(1, 2, 3), (7, 7, 7)], [(4, 5, 6), (4, 5, 6)]] :: grid"
  let ?p = "[[(1, 2, 3), (1, 2, 3)], [(4, 5, 6), (4, 5, 6)]] :: grid"
  have g: "is_grid (1 * 2) 2 ?g" by (simp add: is_grid_def)
  have p: "is_grid (1 * 2) 2 ?p" by (simp add: is_grid_def)
  have p': "case Some ?p of None \<Rightarrow> True | Some q \<Rightarrow> is_grid (1 * 2) 2 q"
    using p by simp
  have ch: "\<forall>x<2. changed_at ?g (Some ?p) 0 x \<longleftrightarrow> 1 \<le> x \<and> x < 1 + 1"
  proof (intro allI impI)
    fix x :: nat
    assume "x < 2"
    then have "x = 0 \<or> x = 1" by auto
    then show "changed_at ?g (Some ?p) 0 x \<longleftrightarrow> 1 \<le> x \<and> x < 1 + 1"
      by (auto simp: changed_at_def)
  qed
  from adjacent_run_one_move [OF g p' _ _ _ ch]
  have "\<exists>parts. encode 2 1 ?g (Some ?p) = Inr parts
         \<and> moves_to_row (0 + 1) parts = (if (0::nat) = 0 \<and> (1::nat) = 0 then [] else [Move (0 + 1) (1 + 1)])"
    by simp
  then have "\<exists>parts. encode 2 1 ?g (Some ?p) = Inr parts \<and> moves_to_row 1 parts = [Move 1 2]"
    by (simp add: numeral_2_eq_2)
  with g p show ?thesis by blast
qed

end
